theory Spec2Isabelle
  imports Main "HOL-Library.Monad_Syntax" "HOL-Library.Extended_Nat"
begin

section \<open>The diff viewer of the admin review panel\<close>

text \<open>
  The development embeds the function \<^verbatim>\<open>DiffViewer\<close> of
  \<^verbatim>\<open>frontend/components/AdminReviewPanel.tsx\<close>: the loop that turns the text of a
  unified diff into one rendered row per line, and the click handler of a row, which
  resolves the row to the line number handed to \<^verbatim>\<open>onPickLine\<close>.

  Conventions of the model:
  \<^item> a JavaScript string is a \<open>string\<close>; a \<open>char\<close> stands for one code unit in the
    range 0..255, so the class \<^verbatim>\<open>\s\<close> of the regular expression is cut down to the
    white space of that range;
  \<^item> a JavaScript number is an \<open>enat\<close>: the regular expression admits digits only, so
    \<^verbatim>\<open>parseInt\<close> never yields a negative number or \<^verbatim>\<open>NaN\<close>, and every value of the
    counters \<^verbatim>\<open>oldLine\<close> and \<^verbatim>\<open>newLine\<close> is a non-negative integer that a double
    holds, or \<^verbatim>\<open>Infinity\<close>, which is \<open>\<infinity>\<close>; a result is rounded as the double
    arithmetic rounds it;
  \<^item> a JSX element pushed on \<^verbatim>\<open>rendered\<close> is a value of the datatype \<open>row\<close>, which
    keeps the key of the element and everything the element shows that depends on the
    line; the CSS classes are left out.
\<close>

subsection \<open>Strings\<close>

text \<open>\<^verbatim>\<open>patch.split("\n")\<close>: the pieces between the line feeds; the empty string gives
  one empty piece.\<close>

fun split_nl :: "string \<Rightarrow> string list" where
  "split_nl [] = [[]]"
| "split_nl (c # cs) =
     (if c = CHR 0x0A then [] # split_nl cs
      else (case split_nl cs of [] \<Rightarrow> [[c]] | l # ls \<Rightarrow> (c # l) # ls))"

text \<open>\<^verbatim>\<open>s.startsWith(p)\<close>.\<close>

definition startsWith :: "string \<Rightarrow> string \<Rightarrow> bool" where
  "startsWith s p = (take (length p) s = p)"

subsection \<open>The regular expression of the hunk header\<close>

text \<open>
  \<^verbatim>\<open>/@@\s-([0-9]+)(?:,[0-9]+)?\s\+([0-9]+)(?:,[0-9]+)?\s@@/\<close>

  The expression is matched by a deterministic scan. A run \<^verbatim>\<open>[0-9]+\<close> is greedy, and
  whatever follows it in the expression (a comma or a white space) is not a digit, so
  giving back digits never helps: the run is the longest one. In the same way the
  optional group \<^verbatim>\<open>(?:,[0-9]+)?\<close> is taken whenever a comma and a digit are there, and
  skipping it then cannot help, since the next item of the expression is a white space
  and the text goes on with the comma.
\<close>

definition isDigit :: "char \<Rightarrow> bool" where
  "isDigit c = (c \<in> set ''0123456789'')"

definition isSpace :: "char \<Rightarrow> bool" where
  "isSpace c = (c \<in> set [CHR 0x09, CHR 0x0A, CHR 0x0B, CHR 0x0C, CHR 0x0D, CHR 0x20, CHR 0xA0])"

text \<open>A literal: the rest of the text after it.\<close>

definition lit :: "string \<Rightarrow> string \<Rightarrow> string option" where
  "lit p s = (if startsWith s p then Some (drop (length p) s) else None)"

text \<open>\<^verbatim>\<open>\s\<close>: one white space.\<close>

definition space1 :: "string \<Rightarrow> string option" where
  "space1 s = (case s of [] \<Rightarrow> None | c # t \<Rightarrow> if isSpace c then Some t else None)"

text \<open>\<^verbatim>\<open>([0-9]+)\<close>: the captured digits and the rest.\<close>

definition digits1 :: "string \<Rightarrow> (string \<times> string) option" where
  "digits1 s =
     (if takeWhile isDigit s = [] then None
      else Some (takeWhile isDigit s, dropWhile isDigit s))"

text \<open>\<^verbatim>\<open>(?:,[0-9]+)?\<close>: the rest after the group, or the text itself without it.\<close>

definition optCount :: "string \<Rightarrow> string" where
  "optCount s =
     (case lit '','' s of
        None \<Rightarrow> s
      | Some t \<Rightarrow> (case digits1 t of None \<Rightarrow> s | Some (ds, u) \<Rightarrow> u))"

text \<open>The expression matched at the start of a text: the two captured groups.\<close>

definition matchAt :: "string \<Rightarrow> (string \<times> string) option" where
  "matchAt s =
     lit ''@@'' s \<bind> space1 \<bind> lit ''-'' \<bind> digits1 \<bind> (\<lambda>(m1, t).
     space1 (optCount t) \<bind> lit ''+'' \<bind> digits1 \<bind> (\<lambda>(m2, u).
     space1 (optCount u) \<bind> lit ''@@'' \<bind> (\<lambda>_. Some (m1, m2))))"

text \<open>\<^verbatim>\<open>raw.match(...)\<close>: the expression is not anchored, the leftmost match wins.\<close>

fun match :: "string \<Rightarrow> (string \<times> string) option" where
  "match [] = matchAt []"
| "match (c # cs) =
     (case matchAt (c # cs) of Some m \<Rightarrow> Some m | None \<Rightarrow> match cs)"

subsection \<open>JavaScript numbers\<close>

text \<open>
  A double has a significand of 53 bits. \<open>expo n\<close> is the number of low bits of \<open>n\<close>
  that do not fit: the number of times \<open>n\<close> is halved until it is below \<open>2 ^ 53\<close>.
\<close>

function expo :: "nat \<Rightarrow> nat" where
  "expo n = (if n < 2 ^ 53 then 0 else Suc (expo (n div 2)))"
  by pat_completeness auto
termination
  by (relation "measure id") auto

text \<open>
  Rounding to the nearest integer with a significand of 53 bits, a tie going to the
  even significand: with \<open>e = expo n\<close>, the significand \<open>q\<close> is \<open>n\<close> without its \<open>e\<close>
  low bits, and \<open>r\<close> is what these bits hold, to be compared with the half of \<open>2 ^ e\<close>.
\<close>

definition rnd :: "nat \<Rightarrow> nat" where
  "rnd n =
     (let e = expo n; q = n div 2 ^ e; r = n mod 2 ^ e
      in (if 2 ^ e < 2 * r \<or> (2 ^ e = 2 * r \<and> odd q) then q + 1 else q) * 2 ^ e)"

text \<open>
  The number value of a non-negative integer: the integer rounded, and \<^verbatim>\<open>Infinity\<close>
  when the rounded integer reaches \<open>2 ^ 1024\<close>.
\<close>

definition toNumber :: "nat \<Rightarrow> enat" where
  "toNumber n = (if rnd n < 2 ^ 1024 then enat (rnd n) else \<infinity>)"

text \<open>\<^verbatim>\<open>x + 1\<close> on numbers: the exact sum, rounded; \<^verbatim>\<open>Infinity + 1\<close> is \<^verbatim>\<open>Infinity\<close>.\<close>

definition plus1 :: "enat \<Rightarrow> enat" where
  "plus1 x = (case x of enat n \<Rightarrow> toNumber (n + 1) | \<infinity> \<Rightarrow> \<infinity>)"

text \<open>
  \<^verbatim>\<open>parseInt(m, 10)\<close> on a text of digits: the integer that the digits write in
  base ten, as a number. (The standard lets an implementation read the digits after the
  twentieth significant one as zeros; the engines in use round the exact integer, which
  is what the model does.)
\<close>

definition digitVal :: "char \<Rightarrow> nat" where
  "digitVal c = of_char c - 48"

definition mathInt :: "string \<Rightarrow> nat" where
  "mathInt ds = foldl (\<lambda>n c. 10 * n + digitVal c) 0 ds"

definition parseInt :: "string \<Rightarrow> enat" where
  "parseInt ds = toNumber (mathInt ds)"

subsection \<open>Rendered rows\<close>

datatype line_type = Add | Del | Ctx

text \<open>
  \<open>HeaderRow i raw\<close> is the element with key \<^verbatim>\<open>h-i\<close>, which shows \<open>raw\<close> and nothing
  else. \<open>LineRow i type displayOld displayNew sign content\<close> is the element with key
  \<^verbatim>\<open>l-i\<close>: the two number cells (\<open>None\<close> is \<^verbatim>\<open>null\<close>, shown as an empty cell), the
  sign cell and the button with the text \<open>content\<close>.
\<close>

datatype row =
    HeaderRow nat string
  | LineRow nat line_type "enat option" "enat option" string string

fun key_index :: "row \<Rightarrow> nat" where
  "key_index (HeaderRow i raw) = i"
| "key_index (LineRow i t dOld dNew sign content) = i"

fun is_header :: "row \<Rightarrow> bool" where
  "is_header (HeaderRow i raw) = True"
| "is_header (LineRow i t dOld dNew sign content) = False"

fun row_type :: "row \<Rightarrow> line_type option" where
  "row_type (HeaderRow i raw) = None"
| "row_type (LineRow i t dOld dNew sign content) = Some t"

fun old_number :: "row \<Rightarrow> enat option" where
  "old_number (HeaderRow i raw) = None"
| "old_number (LineRow i t dOld dNew sign content) = dOld"

fun new_number :: "row \<Rightarrow> enat option" where
  "new_number (HeaderRow i raw) = None"
| "new_number (LineRow i t dOld dNew sign content) = dNew"

fun row_text :: "row \<Rightarrow> string" where
  "row_text (HeaderRow i raw) = raw"
| "row_text (LineRow i t dOld dNew sign content) = content"

subsection \<open>The loop\<close>

record state =
  oldLine :: enat
  newLine :: enat
  rendered :: "row list"

text \<open>The body of the loop at index \<open>i\<close>, with \<open>raw = lines[i]\<close>; \<^verbatim>\<open>oldLine += 1\<close> is
  \<open>plus1\<close>.\<close>

definition body :: "nat \<Rightarrow> string \<Rightarrow> state \<Rightarrow> state" where
  "body i raw st =
     (if startsWith raw ''@@'' then
        (let st1 = (case match raw of
                      Some (m1, m2) \<Rightarrow> st\<lparr>oldLine := parseInt m1, newLine := parseInt m2\<rparr>
                    | None \<Rightarrow> st)
         in st1\<lparr>rendered := rendered st1 @ [HeaderRow i raw]\<rparr>)
      else
        (let (type, displayOld, displayNew, st1) =
               (if startsWith raw ''+'' then
                  (Add, None, Some (newLine st), st\<lparr>newLine := plus1 (newLine st)\<rparr>)
                else if startsWith raw ''-'' then
                  (Del, Some (oldLine st), None, st\<lparr>oldLine := plus1 (oldLine st)\<rparr>)
                else
                  (Ctx, Some (oldLine st), Some (newLine st),
                   st\<lparr>oldLine := plus1 (oldLine st), newLine := plus1 (newLine st)\<rparr>));
             sign = (if take 1 raw = [] then '' '' else take 1 raw);
             content = (if startsWith raw ''+'' \<or> startsWith raw ''-'' then drop 1 raw else raw)
         in st1\<lparr>rendered := rendered st1 @ [LineRow i type displayOld displayNew sign content]\<rparr>))"

text \<open>\<^verbatim>\<open>for (let i = 0; i < lines.length; i++)\<close>, as a recursion on the lines left.\<close>

fun loop :: "nat \<Rightarrow> string list \<Rightarrow> state \<Rightarrow> state" where
  "loop i [] st = st"
| "loop i (raw # rest) st = loop (Suc i) rest (body i raw st)"

definition init :: state where
  "init = \<lparr>oldLine = 0, newLine = 0, rendered = []\<rparr>"

text \<open>The rows that \<^verbatim>\<open>DiffViewer\<close> puts under its table head.\<close>

definition DiffViewer :: "string \<Rightarrow> row list" where
  "DiffViewer patch = rendered (loop 0 (split_nl patch) init)"

text \<open>The variables of the loop when it reaches index \<open>k\<close>.\<close>

definition state_before :: "string \<Rightarrow> nat \<Rightarrow> state" where
  "state_before patch k = loop 0 (take k (split_nl patch)) init"

subsection \<open>The click handler\<close>

text \<open>
  \<^verbatim>\<open>const ln = displayNew != null ? displayNew : (displayOld != null ? displayOld : 0);\<close>
\<close>

definition click_ln :: "enat option \<Rightarrow> enat option \<Rightarrow> enat" where
  "click_ln displayOld displayNew =
     (case displayNew of
        Some n \<Rightarrow> n
      | None \<Rightarrow> (case displayOld of Some n \<Rightarrow> n | None \<Rightarrow> 0))"

text \<open>
  \<^verbatim>\<open>if (ln) onPickLine(ln);\<close> The result is the argument of the call of
  \<^verbatim>\<open>onPickLine\<close>, or \<open>None\<close> when the click calls nothing. Of the numbers of the
  model only 0 is falsy. A header row has no button, so a click on it calls nothing.
\<close>

fun onClick :: "row \<Rightarrow> enat option" where
  "onClick (HeaderRow i raw) = None"
| "onClick (LineRow i t displayOld displayNew sign content) =
     (let ln = click_ln displayOld displayNew in if ln \<noteq> 0 then Some ln else None)"

subsection \<open>Auxiliary notions\<close>

text \<open>The row that the body of the loop pushes.\<close>

definition emitted :: "nat \<Rightarrow> string \<Rightarrow> state \<Rightarrow> row" where
  "emitted i raw st = last (rendered (body i raw st))"

text \<open>A content row that shows the counters \<open>old\<close> and \<open>new\<close> in the cells its type fills.\<close>

definition numbered_from :: "row \<Rightarrow> enat \<Rightarrow> enat \<Rightarrow> bool" where
  "numbered_from r old new =
     (case row_type r of
        None \<Rightarrow> False
      | Some Add \<Rightarrow> old_number r = None \<and> new_number r = Some new
      | Some Del \<Rightarrow> old_number r = Some old \<and> new_number r = None
      | Some Ctx \<Rightarrow> old_number r = Some old \<and> new_number r = Some new)"

text \<open>The values a counter can have: the numbers that \<open>toNumber\<close> yields, and \<open>\<infinity>\<close>.\<close>

definition isNumber :: "enat \<Rightarrow> bool" where
  "isNumber x = (x = \<infinity> \<or> (\<exists>n. x = toNumber n))"

text \<open>
  A counter \<open>x\<close> after \<^verbatim>\<open>+= 1\<close>: the sum as a number, which is not below \<open>x\<close> and is
  \<open>x + 1\<close> itself as long as \<open>x\<close> is below \<open>2 ^ 53\<close>.
\<close>

definition advanced :: "enat \<Rightarrow> enat \<Rightarrow> bool" where
  "advanced x x' = (x' = plus1 x \<and> x \<le> x' \<and> (x < 2 ^ 53 \<longrightarrow> x' = x + 1))"

subsection \<open>Well-formed hunk headers\<close>

text \<open>
  The header lines as the specification writes them,
  \<^verbatim>\<open>@@ -oldStart[,oldCount] +newStart[,newCount] @@\<close>: the start values are non-empty
  runs of digits, a count is absent or a comma and a non-empty run of digits, the items
  are set apart by one white space each, and any text may follow the closing \<^verbatim>\<open>@@\<close>.
\<close>

definition isCount :: "string \<Rightarrow> bool" where
  "isCount c = (c = [] \<or> (take 1 c = '','' \<and> drop 1 c \<noteq> [] \<and> list_all isDigit (drop 1 c)))"

definition hunkHeader ::
  "char \<Rightarrow> string \<Rightarrow> string \<Rightarrow> char \<Rightarrow> string \<Rightarrow> string \<Rightarrow> char \<Rightarrow> string \<Rightarrow> string" where
  "hunkHeader w1 oldStart oldCount w2 newStart newCount w3 rest =
     ''@@'' @ [w1] @ ''-'' @ oldStart @ oldCount @ [w2] @ ''+'' @ newStart @ newCount @ [w3] @ ''@@'' @ rest"

definition wellFormed ::
  "char \<Rightarrow> string \<Rightarrow> string \<Rightarrow> char \<Rightarrow> string \<Rightarrow> string \<Rightarrow> char \<Rightarrow> bool" where
  "wellFormed w1 oldStart oldCount w2 newStart newCount w3 =
     (isSpace w1 \<and> isSpace w2 \<and> isSpace w3 \<and>
      oldStart \<noteq> [] \<and> list_all isDigit oldStart \<and> isCount oldCount \<and>
      newStart \<noteq> [] \<and> list_all isDigit newStart \<and> isCount newCount)"

subsection \<open>The specification's own words\<close>

text \<open>The patch of the end-to-end scenario.\<close>

definition six_line_patch :: string where
  "six_line_patch =
     ''@@ -1,3 +1,4 @@\<newline> line one\<newline>-line two\<newline>+line two modified\<newline>+line three new\<newline> line four''"

text \<open>What a row shows: its type (none for a header row), its two numbers, its text.\<close>

definition shown :: "row \<Rightarrow> line_type option \<times> enat option \<times> enat option \<times> string" where
  "shown r = (row_type r, old_number r, new_number r, row_text r)"

text \<open>The rows that the specification expects for the scenario, in its words.\<close>

definition expected_rows_spec ::
  "(line_type option \<times> enat option \<times> enat option \<times> string) list" where
  "expected_rows_spec =
     [(None, None, None, ''@@ -1,3 +1,4 @@''),
      (Some Ctx, Some 1, Some 1, ''line one''),
      (Some Del, Some 1, None, ''line two''),
      (Some Add, None, Some 2, ''line two modified''),
      (Some Add, None, Some 3, ''line three new''),
      (Some Ctx, Some 2, Some 4, ''line four'')]"

text \<open>The display text in the specification's words: the raw line with its leading
  marker character stripped.\<close>

definition display_text_spec :: "string \<Rightarrow> string" where
  "display_text_spec raw = drop 1 raw"

text \<open>The resolution in the specification's words: the new-file number if present, else
  the old-file number if present, else none.\<close>

definition resolveCommentTarget_spec :: "row \<Rightarrow> enat option" where
  "resolveCommentTarget_spec r =
     (case new_number r of Some n \<Rightarrow> Some n | None \<Rightarrow> old_number r)"

subsection \<open>Calls in sequence\<close>

text \<open>
  A call of the viewer that finds the variables as an earlier call left them: the
  declarations \<^verbatim>\<open>let oldLine = 0; let newLine = 0; const rendered = []\<close> at the head of
  the function set them anew before the loop runs. The call returns the rows and the
  variables as it leaves them.
\<close>

definition DiffViewer_call :: "string \<Rightarrow> state \<Rightarrow> row list \<times> state" where
  "DiffViewer_call patch s =
     (let s1 = s\<lparr>oldLine := 0, newLine := 0, rendered := []\<rparr>;
          s2 = loop 0 (split_nl patch) s1
      in (rendered s2, s2))"

subsection \<open>Lines that advance a counter\<close>

text \<open>The lines on which the body of the loop adds one to \<^verbatim>\<open>oldLine\<close>, and those on
  which it adds one to \<^verbatim>\<open>newLine\<close>.\<close>

definition old_advancing :: "string \<Rightarrow> bool" where
  "old_advancing raw = (\<not> startsWith raw ''@@'' \<and> \<not> startsWith raw ''+'')"

definition new_advancing :: "string \<Rightarrow> bool" where
  "new_advancing raw =
     (\<not> startsWith raw ''@@'' \<and> (startsWith raw ''+'' \<or> \<not> startsWith raw ''-''))"

section \<open>Properties\<close>

subsection \<open>Numbers\<close>

declare expo.simps [simp del]

lemma expo_small: "n < 2 ^ 53 \<Longrightarrow> expo n = 0"
  by (simp add: expo.simps)

lemma expo_large: "\<not> n < 2 ^ 53 \<Longrightarrow> expo n = Suc (expo (n div 2))"
  by (subst expo.simps) simp

lemma rnd_small: "n < 2 ^ 53 \<Longrightarrow> rnd n = n"
  by (simp add: rnd_def expo_small)

lemma toNumber_small: "n < 2 ^ 53 \<Longrightarrow> toNumber n = enat n"
proof -
  assume a: "n < 2 ^ 53"
  have "(2::nat) ^ 53 < 2 ^ 1024" by simp
  with a have "n < 2 ^ 1024" by (rule less_trans)
  with a show ?thesis by (simp add: toNumber_def rnd_small)
qed

lemma toNumber_two53: "toNumber (2 ^ 53) = enat (2 ^ 53)"
  by (simp add: toNumber_def rnd_def expo_large expo_small Let_def)

text \<open>Every integer up to \<open>2 ^ 53\<close> is a number.\<close>

lemma toNumber_exact: "n \<le> 2 ^ 53 \<Longrightarrow> toNumber n = enat n"
  using toNumber_small [of n] toNumber_two53 by (cases "n = 2 ^ 53") auto

lemma plus1_exact: "x < 2 ^ 53 \<Longrightarrow> plus1 x = x + 1"
proof (cases x)
  case (enat n)
  assume "x < 2 ^ 53"
  with enat have "n < 2 ^ 53"
    by (metis enat_ord_simps(2) numeral_eq_enat of_nat_eq_enat of_nat_numeral of_nat_power)
  then have "toNumber (n + 1) = enat (n + 1)" by (simp add: toNumber_exact)
  with enat show ?thesis by (simp add: plus1_def one_enat_def)
next
  case infinity
  assume "x < 2 ^ 53"
  with infinity show ?thesis by simp
qed

lemma expo_bound: "n < 2 ^ 53 * 2 ^ expo n"
proof (induction n rule: expo.induct)
  case (1 n)
  show ?case
  proof (cases "n < 2 ^ 53")
    case True
    then show ?thesis by (simp add: expo_small)
  next
    case False
    with 1 have "n div 2 < 2 ^ 53 * 2 ^ expo (n div 2)" by simp
    then have "n < 2 * (2 ^ 53 * 2 ^ expo (n div 2))" by linarith
    with False show ?thesis by (simp add: expo_large)
  qed
qed

lemma expo_le: "n < 2 ^ 53 * 2 ^ e \<Longrightarrow> expo n \<le> e"
proof (induction n arbitrary: e rule: expo.induct)
  case (1 n)
  show ?case
  proof (cases "n < 2 ^ 53")
    case True
    then show ?thesis by (simp add: expo_small)
  next
    case False
    with "1.prems" obtain e' where e: "e = Suc e'"
      by (cases e) auto
    with "1.prems" have "n div 2 < 2 ^ 53 * 2 ^ e'" by simp
    with "1.IH" False have "expo (n div 2) \<le> e'" by simp
    with False e show ?thesis by (simp add: expo_large)
  qed
qed

lemma rnd_ge: "n - n mod 2 ^ expo n \<le> rnd n"
proof -
  have "n div 2 ^ expo n * 2 ^ expo n \<le> rnd n"
    by (simp add: rnd_def Let_def)
  then show ?thesis by (simp add: minus_mod_eq_div_mult)
qed

lemma rnd_dvd: "2 ^ expo n dvd rnd n"
  by (simp add: rnd_def Let_def)

lemma rnd_le: "rnd n \<le> 2 ^ 53 * 2 ^ expo n"
proof -
  have "n div 2 ^ expo n < 2 ^ 53"
    using expo_bound [of n] by (simp add: less_mult_imp_div_less mult.commute)
  then have "(if 2 ^ expo n < 2 * (n mod 2 ^ expo n) \<or>
               (2 ^ expo n = 2 * (n mod 2 ^ expo n) \<and> odd (n div 2 ^ expo n))
              then n div 2 ^ expo n + 1 else n div 2 ^ expo n) \<le> 2 ^ 53"
    by simp
  then show ?thesis
    unfolding rnd_def Let_def by (rule mult_le_mono1)
qed

text \<open>
  Adding one to a rounded integer and rounding again never gives less: the low bits that
  the second rounding drops are zero in the rounded integer.
\<close>

lemma rnd_succ: "rnd n \<le> rnd (rnd n + 1)"
proof -
  let ?m = "rnd n"
  let ?e = "expo n"
  let ?e' = "expo (?m + 1)"
  have s: "(2::nat) ^ 53 * 2 ^ Suc ?e = 2 * (2 ^ 53 * 2 ^ ?e)" by simp
  have "2 ^ ?e' dvd ?m \<or> 2 ^ ?e' dvd ?m + 1"
  proof (cases "?m + 1 < 2 ^ 53 * 2 ^ ?e")
    case True
    then have "?e' \<le> ?e" by (rule expo_le)
    then have "(2::nat) ^ ?e' dvd 2 ^ ?e" by (simp add: le_imp_power_dvd)
    then show ?thesis using rnd_dvd [of n] dvd_trans by blast
  next
    case False
    with rnd_le [of n] have "?m = 2 ^ 53 * 2 ^ ?e \<or> ?m + 1 = 2 ^ 53 * 2 ^ ?e" by linarith
    then show ?thesis
    proof
      assume m: "?m = 2 ^ 53 * 2 ^ ?e"
      have "(1::nat) < 2 ^ 53" by simp
      also have "(2::nat) ^ 53 \<le> 2 ^ 53 * 2 ^ ?e" by simp
      finally have a: "(1::nat) < 2 ^ 53 * 2 ^ ?e" .
      from m a have "?m + 1 < 2 * (2 ^ 53 * 2 ^ ?e)" by linarith
      then have "?m + 1 < 2 ^ 53 * 2 ^ Suc ?e" by (simp only: s)
      then have "?e' \<le> Suc ?e" by (rule expo_le)
      then have "?e' \<le> 53 + ?e" by simp
      then have "(2::nat) ^ ?e' dvd 2 ^ (53 + ?e)" by (rule le_imp_power_dvd)
      with m show ?thesis by (simp add: power_add)
    next
      assume m: "?m + 1 = 2 ^ 53 * 2 ^ ?e"
      then have "?m + 1 < 2 * (2 ^ 53 * 2 ^ ?e)" by linarith
      then have "?m + 1 < 2 ^ 53 * 2 ^ Suc ?e" by (simp only: s)
      then have "?e' \<le> Suc ?e" by (rule expo_le)
      then have "?e' \<le> 53 + ?e" by simp
      then have "(2::nat) ^ ?e' dvd 2 ^ (53 + ?e)" by (rule le_imp_power_dvd)
      with m show ?thesis by (simp add: power_add)
    qed
  qed
  then have "(?m + 1) mod 2 ^ ?e' \<le> 1"
  proof
    assume "2 ^ ?e' dvd ?m"
    then have "(?m + 1) mod 2 ^ ?e' = 1 mod 2 ^ ?e'"
      by (metis add.commute dvd_eq_mod_eq_0 mod_add_right_eq add.right_neutral mod_mod_trivial)
    then show ?thesis by (metis mod_less_eq_dividend)
  next
    assume "2 ^ ?e' dvd ?m + 1"
    then show ?thesis by simp
  qed
  then have "?m \<le> ?m + 1 - (?m + 1) mod 2 ^ ?e'" by linarith
  also have "\<dots> \<le> rnd (?m + 1)" by (rule rnd_ge)
  finally show ?thesis .
qed

lemma isNumber_0: "isNumber 0"
proof -
  have "(0::enat) = toNumber 0" by (simp add: toNumber_small zero_enat_def)
  then show ?thesis unfolding isNumber_def by blast
qed

lemma isNumber_toNumber: "isNumber (toNumber n)"
  by (auto simp: isNumber_def)

lemma isNumber_plus1: "isNumber (plus1 x)"
  by (cases x) (auto simp: isNumber_def plus1_def)

lemma le_plus1: "isNumber x \<Longrightarrow> x \<le> plus1 x"
proof (cases x)
  case (enat m)
  assume "isNumber x"
  with enat obtain n where "enat m = toNumber n" by (auto simp: isNumber_def)
  then have m: "m = rnd n"
    by (simp add: toNumber_def split: if_splits)
  have "enat m \<le> toNumber (m + 1)"
    using rnd_succ [of n] by (simp add: toNumber_def m)
  with enat show ?thesis by (simp add: plus1_def)
next
  case infinity
  then show ?thesis by (simp add: plus1_def)
qed

lemma plus1_not_0: "isNumber x \<Longrightarrow> plus1 x \<noteq> 0"
proof (cases "x = 0")
  case True
  then show ?thesis by (simp add: plus1_exact)
next
  case False
  assume "isNumber x"
  then have "x \<le> plus1 x" by (rule le_plus1)
  with False show ?thesis by auto
qed

lemma advanced_plus1: "isNumber x \<Longrightarrow> advanced x (plus1 x)"
  by (simp add: advanced_def le_plus1 plus1_exact)

subsection \<open>Lines and rows\<close>

lemma split_nl_not_Nil: "split_nl s \<noteq> []"
  by (induction s) (auto split: list.splits)

lemma length_split_nl: "length (split_nl s) = Suc (count_list s (CHR 0x0A))"
  by (induction s) (auto split: list.splits simp: split_nl_not_Nil)

lemma rendered_body: "rendered (body i raw st) = rendered st @ [emitted i raw st]"
  by (simp add: emitted_def body_def Let_def split: option.splits prod.splits)

lemma emitted_header:
  "startsWith raw ''@@'' \<Longrightarrow> emitted i raw st = HeaderRow i raw"
  by (simp add: emitted_def body_def Let_def split: option.splits prod.splits)

lemma startsWith_take1: "startsWith raw [c] \<Longrightarrow> take (Suc 0) raw = [c] \<and> raw \<noteq> []"
  by (auto simp: startsWith_def)

lemma emitted_add:
  "\<not> startsWith raw ''@@'' \<Longrightarrow> startsWith raw ''+'' \<Longrightarrow>
   emitted i raw st = LineRow i Add None (Some (newLine st)) ''+'' (drop 1 raw)"
  by (simp add: emitted_def body_def Let_def startsWith_take1)

lemma emitted_del:
  "\<not> startsWith raw ''@@'' \<Longrightarrow> \<not> startsWith raw ''+'' \<Longrightarrow> startsWith raw ''-'' \<Longrightarrow>
   emitted i raw st = LineRow i Del (Some (oldLine st)) None ''-'' (drop 1 raw)"
  by (simp add: emitted_def body_def Let_def startsWith_take1)

lemma emitted_ctx:
  "\<not> startsWith raw ''@@'' \<Longrightarrow> \<not> startsWith raw ''+'' \<Longrightarrow> \<not> startsWith raw ''-'' \<Longrightarrow>
   emitted i raw st =
     LineRow i Ctx (Some (oldLine st)) (Some (newLine st))
       (if raw = [] then '' '' else take 1 raw) raw"
  by (simp add: emitted_def body_def Let_def)

lemma counters_body_header_match:
  "startsWith raw ''@@'' \<Longrightarrow> match raw = Some (m1, m2) \<Longrightarrow>
   oldLine (body i raw st) = parseInt m1 \<and> newLine (body i raw st) = parseInt m2"
  by (simp add: body_def Let_def)

lemma counters_body_header_nomatch:
  "startsWith raw ''@@'' \<Longrightarrow> match raw = None \<Longrightarrow>
   oldLine (body i raw st) = oldLine st \<and> newLine (body i raw st) = newLine st"
  by (simp add: body_def Let_def)

lemma counters_body_line:
  "\<not> startsWith raw ''@@'' \<Longrightarrow>
   oldLine (body i raw st) = (if startsWith raw ''+'' then oldLine st else plus1 (oldLine st)) \<and>
   newLine (body i raw st) =
     (if \<not> startsWith raw ''+'' \<and> startsWith raw ''-'' then newLine st else plus1 (newLine st))"
  by (simp add: body_def Let_def)

lemma isNumber_body:
  "isNumber (oldLine st) \<and> isNumber (newLine st) \<Longrightarrow>
   isNumber (oldLine (body i raw st)) \<and> isNumber (newLine (body i raw st))"
  by (auto simp: body_def Let_def parseInt_def isNumber_toNumber isNumber_plus1
      split: option.splits)

lemma loop_snoc: "loop i (xs @ [x]) st = body (i + length xs) x (loop i xs st)"
  by (induction xs arbitrary: i st) auto

lemma state_before_0: "state_before patch 0 = init"
  by (simp add: state_before_def)

lemma state_before_Suc:
  "k < length (split_nl patch) \<Longrightarrow>
   state_before patch (Suc k) = body k (split_nl patch ! k) (state_before patch k)"
  by (simp add: state_before_def take_Suc_conv_app_nth loop_snoc)

lemma isNumber_loop:
  "isNumber (oldLine st) \<and> isNumber (newLine st) \<Longrightarrow>
   isNumber (oldLine (loop i ls st)) \<and> isNumber (newLine (loop i ls st))"
proof (induction ls arbitrary: i st)
  case Nil
  then show ?case by simp
next
  case (Cons raw ls)
  from Cons.prems have "isNumber (oldLine (body i raw st)) \<and> isNumber (newLine (body i raw st))"
    by (rule isNumber_body)
  then show ?case using Cons.IH by simp
qed

lemma isNumber_state_before:
  "isNumber (oldLine (state_before patch k)) \<and> isNumber (newLine (state_before patch k))"
  unfolding state_before_def by (rule isNumber_loop) (simp add: init_def isNumber_0)

lemma state_before_all:
  "length (split_nl patch) \<le> k \<Longrightarrow> rendered (state_before patch k) = DiffViewer patch"
  by (simp add: state_before_def DiffViewer_def)

lemma length_rendered_state_before:
  "k \<le> length (split_nl patch) \<Longrightarrow> length (rendered (state_before patch k)) = k"
proof (induction k)
  case 0
  show ?case by (simp add: state_before_0 init_def)
next
  case (Suc k)
  then show ?case by (simp add: state_before_Suc rendered_body)
qed

lemma rendered_state_before_mono:
  "j \<le> k \<Longrightarrow> k \<le> length (split_nl patch) \<Longrightarrow>
   take j (rendered (state_before patch k)) = rendered (state_before patch j)"
proof (induction k)
  case 0
  then show ?case by (simp add: state_before_0 init_def)
next
  case (Suc k)
  show ?case
  proof (cases "j = Suc k")
    case True
    with Suc.prems show ?thesis by (simp add: length_rendered_state_before)
  next
    case False
    with Suc have "take j (rendered (state_before patch k)) = rendered (state_before patch j)"
      by simp
    moreover have "j \<le> length (rendered (state_before patch k))"
      using False Suc.prems by (simp add: length_rendered_state_before)
    ultimately show ?thesis
      using Suc.prems by (simp add: state_before_Suc rendered_body)
  qed
qed

lemma length_DiffViewer: "length (DiffViewer patch) = length (split_nl patch)"
  using length_rendered_state_before [of "length (split_nl patch)" patch]
  by (simp add: state_before_all)

lemma DiffViewer_nth:
  assumes "k < length (split_nl patch)"
  shows "DiffViewer patch ! k = emitted k (split_nl patch ! k) (state_before patch k)"
proof -
  let ?n = "length (split_nl patch)"
  have "take (Suc k) (DiffViewer patch) = rendered (state_before patch (Suc k))"
    using rendered_state_before_mono [of "Suc k" ?n patch] assms
    by (simp add: state_before_all)
  then have "DiffViewer patch ! k = rendered (state_before patch (Suc k)) ! k"
    by (metis lessI nth_take)
  also have "\<dots> = emitted k (split_nl patch ! k) (state_before patch k)"
    using assms by (simp add: state_before_Suc rendered_body nth_append length_rendered_state_before)
  finally show ?thesis .
qed

text \<open>The definitions that evaluating the viewer on a given patch unfolds.\<close>

lemmas eval_defs =
  DiffViewer_def init_def body_def startsWith_def matchAt_def lit_def space1_def digits1_def
  optCount_def isDigit_def isSpace_def parseInt_def mathInt_def digitVal_def emitted_def
  state_before_def numbered_from_def plus1_def toNumber_small numeral_eq_enat one_enat_def
  zero_enat_def

lemma key_index_emitted: "key_index (emitted i raw st) = i"
  by (simp add: emitted_def body_def Let_def split: option.splits prod.splits)

lemma is_header_emitted: "is_header (emitted i raw st) = startsWith raw ''@@''"
  by (simp add: emitted_def body_def Let_def split: option.splits prod.splits)

lemma numbered_from_emitted:
  "\<not> startsWith raw ''@@'' \<Longrightarrow> numbered_from (emitted i raw st) (oldLine st) (newLine st)"
  by (simp add: emitted_def body_def Let_def numbered_from_def)

lemma row_type_emitted:
  "row_type (emitted i raw st) =
     (if startsWith raw ''@@'' then None
      else if startsWith raw ''+'' then Some Add
      else if startsWith raw ''-'' then Some Del else Some Ctx)"
  by (simp add: emitted_def body_def Let_def split: option.splits prod.splits)

text \<open>
  Claim C1. For every patch the viewer pushes exactly one row per line of
  \<^verbatim>\<open>patch.split("\n")\<close>, that is, one more than the patch has line feeds. Row \<open>i\<close>
  has the key index \<open>i\<close>, is a header row exactly when line \<open>i\<close> begins with
  \<^verbatim>\<open>@@\<close>, and is the row the body of the loop pushes for line \<open>i\<close> in the state reached
  after the lines before it: the rows come in the order of the lines.
\<close>

theorem one_row_per_line:
  "length (DiffViewer patch) = length (split_nl patch) \<and>
   length (split_nl patch) = Suc (count_list patch (CHR 0x0A)) \<and>
   (\<forall>i<length (split_nl patch).
      key_index (DiffViewer patch ! i) = i \<and>
      is_header (DiffViewer patch ! i) = startsWith (split_nl patch ! i) ''@@'' \<and>
      DiffViewer patch ! i = emitted i (split_nl patch ! i) (state_before patch i))"
  by (simp add: length_DiffViewer length_split_nl [symmetric] DiffViewer_nth key_index_emitted
      is_header_emitted)

theorem one_row_per_line_witness:
  "length (DiffViewer ''+a\<newline>-b\<newline>'') = 3 \<and>
   key_index (DiffViewer ''+a\<newline>-b\<newline>'' ! 1) = 1 \<and>
   DiffViewer ''+a\<newline>-b\<newline>'' ! 1 = LineRow 1 Del (Some 0) None ''-'' ''b''"
  using one_row_per_line [of "''+a\<newline>-b\<newline>''"]
  by (simp add: eval_defs)

lemma row_presence:
  "let r = emitted i raw st in
     (row_type r = Some Add \<longrightarrow> new_number r \<noteq> None \<and> old_number r = None) \<and>
     (row_type r = Some Del \<longrightarrow> old_number r \<noteq> None \<and> new_number r = None) \<and>
     (row_type r = Some Ctx \<longrightarrow> old_number r \<noteq> None \<and> new_number r \<noteq> None) \<and>
     (is_header r \<longrightarrow> old_number r = None \<and> new_number r = None) \<and>
     (\<not> is_header r \<longrightarrow> old_number r \<noteq> None \<or> new_number r \<noteq> None)"
  by (simp add: emitted_def body_def Let_def split: option.splits prod.splits)

text \<open>
  Claim C3. In every row of every patch: an addition shows a new-file number and no
  old-file number, a deletion an old-file number and no new-file number, a context row
  both, a header row neither; so every row that is not a header shows at least one number.
\<close>

theorem number_presence_by_kind:
  "\<forall>r \<in> set (DiffViewer patch).
     (row_type r = Some Add \<longrightarrow> new_number r \<noteq> None \<and> old_number r = None) \<and>
     (row_type r = Some Del \<longrightarrow> old_number r \<noteq> None \<and> new_number r = None) \<and>
     (row_type r = Some Ctx \<longrightarrow> old_number r \<noteq> None \<and> new_number r \<noteq> None) \<and>
     (is_header r \<longrightarrow> old_number r = None \<and> new_number r = None) \<and>
     (\<not> is_header r \<longrightarrow> old_number r \<noteq> None \<or> new_number r \<noteq> None)"
proof
  fix r
  assume "r \<in> set (DiffViewer patch)"
  then obtain k where k: "k < length (split_nl patch)" and r: "r = DiffViewer patch ! k"
    by (auto simp: in_set_conv_nth length_DiffViewer)
  from k r have "r = emitted k (split_nl patch ! k) (state_before patch k)"
    by (simp add: DiffViewer_nth)
  with row_presence [of k "split_nl patch ! k" "state_before patch k"]
  show "(row_type r = Some Add \<longrightarrow> new_number r \<noteq> None \<and> old_number r = None) \<and>
     (row_type r = Some Del \<longrightarrow> old_number r \<noteq> None \<and> new_number r = None) \<and>
     (row_type r = Some Ctx \<longrightarrow> old_number r \<noteq> None \<and> new_number r \<noteq> None) \<and>
     (is_header r \<longrightarrow> old_number r = None \<and> new_number r = None) \<and>
     (\<not> is_header r \<longrightarrow> old_number r \<noteq> None \<or> new_number r \<noteq> None)"
    by (simp add: Let_def)
qed


theorem number_presence_by_kind_witness:
  "LineRow 1 Del (Some 4) None ''-'' ''b'' \<in> set (DiffViewer ''@@ -4 +9 @@\<newline>-b'') \<and>
   old_number (LineRow 1 Del (Some 4) None ''-'' ''b'') \<noteq> None \<and>
   new_number (LineRow 1 Del (Some 4) None ''-'' ''b'') = None"
proof -
  have h: "LineRow 1 Del (Some 4) None ''-'' ''b'' \<in> set (DiffViewer ''@@ -4 +9 @@\<newline>-b'')"
    by (simp add: eval_defs)
  show ?thesis
    using h number_presence_by_kind [of "''@@ -4 +9 @@\<newline>-b''"] by auto
qed

lemma body_malformed:
  "startsWith raw ''@@'' \<Longrightarrow> match raw = None \<Longrightarrow>
   body i raw st = st\<lparr>rendered := rendered st @ [HeaderRow i raw]\<rparr>"
  by (simp add: body_def)

lemma numbered_from_nth:
  assumes "k < length (split_nl patch)" and "\<not> startsWith (split_nl patch ! k) ''@@''"
  shows "numbered_from (DiffViewer patch ! k)
           (oldLine (state_before patch k)) (newLine (state_before patch k))"
  using assms by (simp add: DiffViewer_nth numbered_from_emitted)

text \<open>
  Claim C6. A line that begins with \<^verbatim>\<open>@@\<close> and that the regular expression does not
  match is not an error: the body of the loop only pushes the line, unchanged, as a
  header row, so both counters keep the values they had, and a content line right after
  it is numbered from those values.
\<close>

theorem malformed_header_keeps_counters:
  assumes "k < length (split_nl patch)"
    and "startsWith (split_nl patch ! k) ''@@''"
    and "match (split_nl patch ! k) = None"
  shows "DiffViewer patch ! k = HeaderRow k (split_nl patch ! k) \<and>
         (\<forall>i st. body i (split_nl patch ! k) st =
            st\<lparr>rendered := rendered st @ [HeaderRow i (split_nl patch ! k)]\<rparr>) \<and>
         oldLine (state_before patch (Suc k)) = oldLine (state_before patch k) \<and>
         newLine (state_before patch (Suc k)) = newLine (state_before patch k) \<and>
         (Suc k < length (split_nl patch) \<longrightarrow> \<not> startsWith (split_nl patch ! Suc k) ''@@'' \<longrightarrow>
            numbered_from (DiffViewer patch ! Suc k)
              (oldLine (state_before patch k)) (newLine (state_before patch k)))"
proof -
  let ?raw = "split_nl patch ! k"
  have row: "DiffViewer patch ! k = HeaderRow k ?raw"
    using assms(1,2) by (simp add: DiffViewer_nth emitted_header)
  have bd: "\<forall>i st. body i ?raw st = st\<lparr>rendered := rendered st @ [HeaderRow i ?raw]\<rparr>"
    using assms(2,3) by (simp add: body_malformed)
  have cnt: "oldLine (state_before patch (Suc k)) = oldLine (state_before patch k) \<and>
             newLine (state_before patch (Suc k)) = newLine (state_before patch k)"
    using assms by (simp add: state_before_Suc counters_body_header_nomatch)
  have nxt: "Suc k < length (split_nl patch) \<longrightarrow> \<not> startsWith (split_nl patch ! Suc k) ''@@'' \<longrightarrow>
            numbered_from (DiffViewer patch ! Suc k)
              (oldLine (state_before patch k)) (newLine (state_before patch k))"
    using numbered_from_nth [of "Suc k" patch] cnt by auto
  from row bd cnt nxt show ?thesis by blast
qed

theorem malformed_header_keeps_counters_witness:
  "startsWith (split_nl ''@@ -5 +7 @@\<newline>@@ -x +y @@\<newline> z'' ! 1) ''@@'' \<and>
   match (split_nl ''@@ -5 +7 @@\<newline>@@ -x +y @@\<newline> z'' ! 1) = None \<and>
   DiffViewer ''@@ -5 +7 @@\<newline>@@ -x +y @@\<newline> z'' ! 1 = HeaderRow 1 ''@@ -x +y @@'' \<and>
   DiffViewer ''@@ -5 +7 @@\<newline>@@ -x +y @@\<newline> z'' ! 2 =
     LineRow 2 Ctx (Some 5) (Some 7) '' '' '' z''"
proof -
  let ?p = "''@@ -5 +7 @@\<newline>@@ -x +y @@\<newline> z''"
  have h1: "1 < length (split_nl ?p)" by simp
  have h2: "startsWith (split_nl ?p ! 1) ''@@''" by (simp add: startsWith_def)
  have h3: "match (split_nl ?p ! 1) = None" by (simp add: eval_defs)
  show ?thesis
    using h2 h3 malformed_header_keeps_counters [OF h1 h2 h3]
    by (simp add: eval_defs)
qed

lemma counters_by_type:
  assumes "k < length (split_nl patch)" and "\<not> startsWith (split_nl patch ! k) ''@@''"
  shows "(case row_type (DiffViewer patch ! k) of
            None \<Rightarrow> False
          | Some Add \<Rightarrow>
              oldLine (state_before patch (Suc k)) = oldLine (state_before patch k) \<and>
              advanced (newLine (state_before patch k)) (newLine (state_before patch (Suc k)))
          | Some Del \<Rightarrow>
              advanced (oldLine (state_before patch k)) (oldLine (state_before patch (Suc k))) \<and>
              newLine (state_before patch (Suc k)) = newLine (state_before patch k)
          | Some Ctx \<Rightarrow>
              advanced (oldLine (state_before patch k)) (oldLine (state_before patch (Suc k))) \<and>
              advanced (newLine (state_before patch k)) (newLine (state_before patch (Suc k))))"
  using assms isNumber_state_before [of patch k]
  by (simp add: DiffViewer_nth row_type_emitted state_before_Suc counters_body_line
      advanced_plus1)

lemma content_line_step:
  assumes "m < length (split_nl patch)" and "\<not> startsWith (split_nl patch ! m) ''@@''"
  shows "(oldLine (state_before patch (Suc m)) = oldLine (state_before patch m) \<or>
          oldLine (state_before patch (Suc m)) = plus1 (oldLine (state_before patch m))) \<and>
         oldLine (state_before patch m) \<le> oldLine (state_before patch (Suc m)) \<and>
         (newLine (state_before patch (Suc m)) = newLine (state_before patch m) \<or>
          newLine (state_before patch (Suc m)) = plus1 (newLine (state_before patch m))) \<and>
         newLine (state_before patch m) \<le> newLine (state_before patch (Suc m))"
  using assms isNumber_state_before [of patch m]
  by (simp add: state_before_Suc counters_body_line le_plus1)

lemma run_monotone:
  assumes "j \<le> k" and "k \<le> length (split_nl patch)"
    and "\<forall>m. j \<le> m \<and> m < k \<longrightarrow> \<not> startsWith (split_nl patch ! m) ''@@''"
  shows "oldLine (state_before patch j) \<le> oldLine (state_before patch k) \<and>
         newLine (state_before patch j) \<le> newLine (state_before patch k)"
  using assms
proof (induction k)
  case 0
  then show ?case by simp
next
  case (Suc k)
  show ?case
  proof (cases "j = Suc k")
    case True
    then show ?thesis by simp
  next
    case False
    with Suc.prems have jk: "j \<le> k" and kl: "k < length (split_nl patch)"
      and nh: "\<not> startsWith (split_nl patch ! k) ''@@''" by auto
    from Suc.IH jk kl Suc.prems(3)
    have "oldLine (state_before patch j) \<le> oldLine (state_before patch k) \<and>
          newLine (state_before patch j) \<le> newLine (state_before patch k)" by simp
    moreover have "oldLine (state_before patch k) \<le> oldLine (state_before patch (Suc k)) \<and>
          newLine (state_before patch k) \<le> newLine (state_before patch (Suc k))"
      using content_line_step [OF kl nh] by simp
    ultimately show ?thesis by (blast intro: order_trans)
  qed
qed

text \<open>
  One step of a counter at \<open>2 ^ 53\<close> adds nothing: after a header that declares
  9007199254740992 an addition leaves the new counter where it is.
\<close>

theorem counter_increment_counterexample:
  "row_type (DiffViewer ''@@ -9007199254740992 +9007199254740992 @@\<newline>+a'' ! 1) = Some Add \<and>
   newLine (state_before ''@@ -9007199254740992 +9007199254740992 @@\<newline>+a'' 1) =
     9007199254740992 \<and>
   newLine (state_before ''@@ -9007199254740992 +9007199254740992 @@\<newline>+a'' 2) =
     9007199254740992 \<and>
   newLine (state_before ''@@ -9007199254740992 +9007199254740992 @@\<newline>+a'' 2) \<noteq>
     newLine (state_before ''@@ -9007199254740992 +9007199254740992 @@\<newline>+a'' 1) + 1"
  by (simp add: eval_defs toNumber_def rnd_def expo_large expo_small Let_def)

text \<open>
  Claim C4, amended. In a run of lines \<open>j, \<dots>, k - 1\<close> without a header line the counters
  never decrease, and every line \<open>m\<close> of the run shows the counters as they are before it
  and advances them once by its type: an addition the new counter only, a deletion the
  old counter only, a context line both. An advance is \<^verbatim>\<open>+= 1\<close> on numbers: it adds
  exactly one as long as the counter is below \<open>2 ^ 53\<close>, and from there on it yields the
  rounded sum, which is never below the counter.
\<close>

theorem counters_advance_by_kind:
  assumes "j \<le> k" and "k \<le> length (split_nl patch)"
    and "\<forall>m. j \<le> m \<and> m < k \<longrightarrow> \<not> startsWith (split_nl patch ! m) ''@@''"
  shows "oldLine (state_before patch j) \<le> oldLine (state_before patch k) \<and>
         newLine (state_before patch j) \<le> newLine (state_before patch k) \<and>
         (\<forall>m. j \<le> m \<and> m < k \<longrightarrow>
            (case row_type (DiffViewer patch ! m) of
               None \<Rightarrow> False
             | Some Add \<Rightarrow>
                 oldLine (state_before patch (Suc m)) = oldLine (state_before patch m) \<and>
                 advanced (newLine (state_before patch m)) (newLine (state_before patch (Suc m)))
             | Some Del \<Rightarrow>
                 advanced (oldLine (state_before patch m)) (oldLine (state_before patch (Suc m))) \<and>
                 newLine (state_before patch (Suc m)) = newLine (state_before patch m)
             | Some Ctx \<Rightarrow>
                 advanced (oldLine (state_before patch m)) (oldLine (state_before patch (Suc m))) \<and>
                 advanced (newLine (state_before patch m)) (newLine (state_before patch (Suc m)))) \<and>
            numbered_from (DiffViewer patch ! m)
              (oldLine (state_before patch m)) (newLine (state_before patch m)))"
proof -
  have "\<forall>m. j \<le> m \<and> m < k \<longrightarrow> m < length (split_nl patch) \<and> \<not> startsWith (split_nl patch ! m) ''@@''"
    using assms by auto
  then show ?thesis
    using run_monotone [OF assms] counters_by_type [of _ patch] numbered_from_nth [of _ patch]
    by simp
qed

theorem counters_advance_by_kind_witness:
  "oldLine (state_before ''@@ -3 +8 @@\<newline>+a\<newline>-b\<newline> c\<newline>'' 1) = 3 \<and>
   newLine (state_before ''@@ -3 +8 @@\<newline>+a\<newline>-b\<newline> c\<newline>'' 1) = 8 \<and>
   oldLine (state_before ''@@ -3 +8 @@\<newline>+a\<newline>-b\<newline> c\<newline>'' 4) = 5 \<and>
   newLine (state_before ''@@ -3 +8 @@\<newline>+a\<newline>-b\<newline> c\<newline>'' 4) = 10 \<and>
   row_type (DiffViewer ''@@ -3 +8 @@\<newline>+a\<newline>-b\<newline> c\<newline>'' ! 2) = Some Del \<and>
   oldLine (state_before ''@@ -3 +8 @@\<newline>+a\<newline>-b\<newline> c\<newline>'' 2) = 3 \<and>
   oldLine (state_before ''@@ -3 +8 @@\<newline>+a\<newline>-b\<newline> c\<newline>'' 3) = 4"
proof -
  let ?p = "''@@ -3 +8 @@\<newline>+a\<newline>-b\<newline> c\<newline>''"
  have h1: "(1::nat) \<le> 4" by simp
  have h2: "4 \<le> length (split_nl ?p)" by simp
  have h3: "\<forall>m. 1 \<le> m \<and> m < 4 \<longrightarrow> \<not> startsWith (split_nl ?p ! m) ''@@''"
  proof (intro allI impI)
    fix m :: nat
    assume "1 \<le> m \<and> m < 4"
    then have "m = 1 \<or> m = 2 \<or> m = 3" by arith
    then show "\<not> startsWith (split_nl ?p ! m) ''@@''"
      by (auto simp: startsWith_def)
  qed
  show ?thesis
    using counters_advance_by_kind [OF h1 h2 h3]
    by (simp add: eval_defs)
qed

subsection \<open>The regular expression on well-formed headers\<close>

lemma isSpace_not_digit: "isSpace c \<Longrightarrow> \<not> isDigit c"
  by (auto simp: isSpace_def isDigit_def)

lemma isSpace_not_comma: "isSpace c \<Longrightarrow> c \<noteq> CHR '',''"
  by (auto simp: isSpace_def)

lemma comma_not_digit: "\<not> isDigit (CHR '','')"
  by (simp add: isDigit_def)

lemma lit_append: "lit p (p @ s) = Some s"
  by (simp add: lit_def startsWith_def)

lemma space1_Cons: "isSpace w \<Longrightarrow> space1 (w # s) = Some s"
  by (simp add: space1_def)

lemma digits1_run:
  assumes "ds \<noteq> []" and "list_all isDigit ds" and "\<not> isDigit y"
  shows "digits1 (ds @ y # s) = Some (ds, y # s)"
proof -
  have "\<forall>x\<in>set ds. isDigit x" using assms(2) by (simp add: list_all_iff)
  then have "takeWhile isDigit (ds @ y # s) = ds" and "dropWhile isDigit (ds @ y # s) = y # s"
    using assms(3) by (simp_all add: takeWhile_append2 dropWhile_append2)
  then show ?thesis using assms(1) by (simp add: digits1_def)
qed

lemma optCount_skip:
  assumes "isCount c" and "isSpace w"
  shows "optCount (c @ w # s) = w # s"
proof (cases "c = []")
  case True
  then show ?thesis
    using assms(2) by (simp add: optCount_def lit_def startsWith_def isSpace_not_comma)
next
  case False
  with assms(1) obtain ds where c: "c = CHR '','' # ds" and ds: "ds \<noteq> []" "list_all isDigit ds"
    by (cases c) (auto simp: isCount_def)
  have "lit '','' (c @ w # s) = Some (ds @ w # s)"
    by (simp add: c lit_def startsWith_def)
  moreover have "digits1 (ds @ w # s) = Some (ds, w # s)"
    using ds assms(2) by (simp add: digits1_run isSpace_not_digit)
  ultimately show ?thesis by (simp add: optCount_def)
qed

lemma digits1_before_count:
  assumes "ds \<noteq> []" and "list_all isDigit ds" and "isCount c" and "isSpace w"
  shows "digits1 (ds @ c @ w # s) = Some (ds, c @ w # s)"
proof (cases "c = []")
  case True
  then show ?thesis using assms by (simp add: digits1_run isSpace_not_digit)
next
  case False
  with assms(3) obtain cs where c: "c = CHR '','' # cs"
    by (cases c) (auto simp: isCount_def)
  show ?thesis
    using digits1_run [OF assms(1,2) comma_not_digit, of "cs @ w # s"] by (simp add: c)
qed

lemma matchAt_hunkHeader:
  assumes "wellFormed w1 d1 c1 w2 d2 c2 w3"
  shows "matchAt (hunkHeader w1 d1 c1 w2 d2 c2 w3 rest) = Some (d1, d2)"
proof -
  from assms have w: "isSpace w1" "isSpace w2" "isSpace w3"
    and d1: "d1 \<noteq> []" "list_all isDigit d1" and c1: "isCount c1"
    and d2: "d2 \<noteq> []" "list_all isDigit d2" and c2: "isCount c2"
    by (simp_all add: wellFormed_def)
  let ?t3 = "w3 # ''@@'' @ rest"
  let ?t2 = "w2 # ''+'' @ d2 @ c2 @ ?t3"
  have a: "lit ''@@'' (hunkHeader w1 d1 c1 w2 d2 c2 w3 rest) = Some (w1 # ''-'' @ d1 @ c1 @ ?t2)"
    using lit_append [of "''@@''"] by (simp add: hunkHeader_def)
  have b: "space1 (w1 # ''-'' @ d1 @ c1 @ ?t2) = Some (''-'' @ d1 @ c1 @ ?t2)"
    using w(1) by (rule space1_Cons)
  have c: "lit ''-'' (''-'' @ d1 @ c1 @ ?t2) = Some (d1 @ c1 @ ?t2)"
    by (rule lit_append)
  have d: "digits1 (d1 @ c1 @ ?t2) = Some (d1, c1 @ ?t2)"
    using d1 c1 w(2) by (rule digits1_before_count)
  have e: "optCount (c1 @ ?t2) = ?t2"
    using c1 w(2) by (rule optCount_skip)
  have f: "space1 ?t2 = Some (''+'' @ d2 @ c2 @ ?t3)"
    using w(2) by (rule space1_Cons)
  have g: "lit ''+'' (''+'' @ d2 @ c2 @ ?t3) = Some (d2 @ c2 @ ?t3)"
    by (rule lit_append)
  have h: "digits1 (d2 @ c2 @ ?t3) = Some (d2, c2 @ ?t3)"
    using d2 c2 w(3) by (rule digits1_before_count)
  have i: "optCount (c2 @ ?t3) = ?t3"
    using c2 w(3) by (rule optCount_skip)
  have j: "space1 ?t3 = Some (''@@'' @ rest)"
    using w(3) by (rule space1_Cons)
  have k: "lit ''@@'' (''@@'' @ rest) = Some rest"
    by (rule lit_append)
  show ?thesis
    unfolding matchAt_def by (simp only: a b c d e f g h i j k bind.bind_lunit prod.case)
qed

lemma match_hunkHeader:
  assumes "wellFormed w1 d1 c1 w2 d2 c2 w3"
  shows "match (hunkHeader w1 d1 c1 w2 d2 c2 w3 rest) = Some (d1, d2)"
proof -
  have "hunkHeader w1 d1 c1 w2 d2 c2 w3 rest = CHR ''@'' # tl (hunkHeader w1 d1 c1 w2 d2 c2 w3 rest)"
    by (simp add: hunkHeader_def)
  then show ?thesis
    using matchAt_hunkHeader [OF assms, of rest]
    by (metis match.simps(2) option.simps(5))
qed

lemma startsWith_hunkHeader: "startsWith (hunkHeader w1 d1 c1 w2 d2 c2 w3 rest) ''@@''"
  by (simp add: hunkHeader_def startsWith_def)

text \<open>
  Conversely, whatever the scan matches is a well-formed header, so that the scan fails on
  a line exactly when no well-formed header stands anywhere in it.
\<close>

lemma lit_Some: "lit p s = Some t \<Longrightarrow> s = p @ t"
  by (auto simp: lit_def startsWith_def split: if_splits) (metis append_take_drop_id)

lemma space1_Some: "space1 s = Some t \<Longrightarrow> \<exists>w. isSpace w \<and> s = w # t"
  by (auto simp: space1_def split: list.splits if_splits)

lemma digits1_Some: "digits1 s = Some (ds, t) \<Longrightarrow> ds \<noteq> [] \<and> list_all isDigit ds \<and> s = ds @ t"
  by (auto simp: digits1_def list_all_iff split: if_splits dest: set_takeWhileD)

lemma optCount_shape: "\<exists>c. isCount c \<and> s = c @ optCount s"
proof (cases "lit '','' s")
  case None
  then have "optCount s = s" by (simp add: optCount_def)
  then show ?thesis by (auto simp: isCount_def)
next
  case (Some t)
  then have s: "s = '','' @ t" by (rule lit_Some)
  show ?thesis
  proof (cases "digits1 t")
    case None
    with Some have "optCount s = s" by (simp add: optCount_def)
    then show ?thesis by (auto simp: isCount_def)
  next
    case (Some a)
    obtain ds u where a: "a = (ds, u)" by (cases a)
    with Some have d: "ds \<noteq> []" "list_all isDigit ds" "t = ds @ u"
      using digits1_Some by blast+
    from \<open>lit '','' s = Some t\<close> Some a have "optCount s = u" by (simp add: optCount_def)
    moreover have "isCount ('','' @ ds)" using d by (simp add: isCount_def)
    ultimately show ?thesis using s d(3) by (intro exI [of _ "'','' @ ds"]) simp
  qed
qed

lemma matchAt_Some:
  assumes "matchAt s = Some (m1, m2)"
  shows "\<exists>w1 c1 w2 c2 w3 rest.
           wellFormed w1 m1 c1 w2 m2 c2 w3 \<and> s = hunkHeader w1 m1 c1 w2 m2 c2 w3 rest"
proof -
  from assms obtain t1 t2 t3 t4 t5 t6 t7 t8 t9 rest where
    a: "lit ''@@'' s = Some t1" and b: "space1 t1 = Some t2" and c: "lit ''-'' t2 = Some t3"
    and d: "digits1 t3 = Some (m1, t4)" and e: "space1 (optCount t4) = Some t5"
    and f: "lit ''+'' t5 = Some t6" and g: "digits1 t6 = Some (m2, t7)"
    and h: "space1 (optCount t7) = Some t8" and i: "lit ''@@'' t8 = Some rest"
    unfolding matchAt_def
    by (auto simp: bind_eq_Some_conv split: prod.splits)
  from b obtain w1 where w1: "isSpace w1" "t1 = w1 # t2" using space1_Some by blast
  from e obtain w2 where w2: "isSpace w2" "optCount t4 = w2 # t5" using space1_Some by blast
  from h obtain w3 where w3: "isSpace w3" "optCount t7 = w3 # t8" using space1_Some by blast
  from optCount_shape [of t4] obtain c1 where c1: "isCount c1" "t4 = c1 @ optCount t4" by blast
  from optCount_shape [of t7] obtain c2 where c2: "isCount c2" "t7 = c2 @ optCount t7" by blast
  note d' = digits1_Some [OF d] and g' = digits1_Some [OF g]
  have wf: "wellFormed w1 m1 c1 w2 m2 c2 w3"
    using w1(1) w2(1) w3(1) c1(1) c2(1) d' g' by (simp add: wellFormed_def)
  have "s = ''@@'' @ t1" using a by (rule lit_Some)
  also have "t1 = w1 # ''-'' @ t3" using w1(2) lit_Some [OF c] by simp
  also have "t3 = m1 @ c1 @ w2 # t5" using d' c1(2) w2(2) by simp
  also have "t5 = ''+'' @ m2 @ c2 @ w3 # t8" using lit_Some [OF f] g' c2(2) w3(2) by simp
  also have "t8 = ''@@'' @ rest" using i by (rule lit_Some)
  finally have "s = hunkHeader w1 m1 c1 w2 m2 c2 w3 rest" by (simp add: hunkHeader_def)
  with wf show ?thesis by blast
qed

lemma match_Some:
  "match s = Some m \<Longrightarrow> \<exists>pre t. s = pre @ t \<and> matchAt t = Some m"
proof (induction s)
  case Nil
  then show ?case by simp
next
  case (Cons c cs)
  show ?case
  proof (cases "matchAt (c # cs)")
    case None
    with Cons.prems have "match cs = Some m" by simp
    with Cons.IH obtain pre t where "cs = pre @ t" "matchAt t = Some m" by blast
    then have "c # cs = (c # pre) @ t \<and> matchAt t = Some m" by simp
    then show ?thesis by blast
  next
    case (Some a)
    with Cons.prems have "matchAt (c # cs) = Some m" by simp
    then have "c # cs = [] @ (c # cs) \<and> matchAt (c # cs) = Some m" by simp
    then show ?thesis by blast
  qed
qed

lemma match_None: "match (pre @ t) = None \<Longrightarrow> matchAt t = None"
proof (induction pre)
  case Nil
  then show ?case by (cases t) (auto split: option.splits)
next
  case (Cons c pre)
  then show ?case by (auto split: option.splits)
qed

lemma match_None_iff:
  "match raw = None \<longleftrightarrow>
   \<not> (\<exists>pre w1 d1 c1 w2 d2 c2 w3 rest.
        wellFormed w1 d1 c1 w2 d2 c2 w3 \<and> raw = pre @ hunkHeader w1 d1 c1 w2 d2 c2 w3 rest)"
proof
  assume n: "match raw = None"
  show "\<not> (\<exists>pre w1 d1 c1 w2 d2 c2 w3 rest.
        wellFormed w1 d1 c1 w2 d2 c2 w3 \<and> raw = pre @ hunkHeader w1 d1 c1 w2 d2 c2 w3 rest)"
  proof
    assume "\<exists>pre w1 d1 c1 w2 d2 c2 w3 rest.
        wellFormed w1 d1 c1 w2 d2 c2 w3 \<and> raw = pre @ hunkHeader w1 d1 c1 w2 d2 c2 w3 rest"
    then obtain pre w1 d1 c1 w2 d2 c2 w3 rest where
      wf: "wellFormed w1 d1 c1 w2 d2 c2 w3"
      and raw: "raw = pre @ hunkHeader w1 d1 c1 w2 d2 c2 w3 rest" by blast
    from n raw have "matchAt (hunkHeader w1 d1 c1 w2 d2 c2 w3 rest) = None"
      using match_None by blast
    with matchAt_hunkHeader [OF wf, of rest] show False by simp
  qed
next
  assume no: "\<not> (\<exists>pre w1 d1 c1 w2 d2 c2 w3 rest.
        wellFormed w1 d1 c1 w2 d2 c2 w3 \<and> raw = pre @ hunkHeader w1 d1 c1 w2 d2 c2 w3 rest)"
  show "match raw = None"
  proof (rule ccontr)
    assume "match raw \<noteq> None"
    then obtain m1 m2 where "match raw = Some (m1, m2)" by auto
    then obtain pre t where "raw = pre @ t" "matchAt t = Some (m1, m2)"
      using match_Some by blast
    with matchAt_Some [of t m1 m2] no show False by blast
  qed
qed

subsection \<open>Hunk headers\<close>

lemma body_hunkHeader:
  assumes "wellFormed w1 d1 c1 w2 d2 c2 w3"
  shows "body i (hunkHeader w1 d1 c1 w2 d2 c2 w3 rest) st =
           \<lparr>oldLine = parseInt d1, newLine = parseInt d2,
            rendered = rendered st @ [HeaderRow i (hunkHeader w1 d1 c1 w2 d2 c2 w3 rest)]\<rparr>"
  by (simp add: body_def startsWith_hunkHeader match_hunkHeader [OF assms])

text \<open>
  A declared start value beyond \<open>2 ^ 53\<close> need not be a number: the header that declares
  9007199254740993 sets the counter to 9007199254740992.
\<close>

theorem declared_start_counterexample:
  "wellFormed (CHR '' '') ''9007199254740993'' [] (CHR '' '') ''9007199254740993'' [] (CHR '' '') \<and>
   split_nl ''@@ -9007199254740993 +9007199254740993 @@'' ! 0 =
     hunkHeader (CHR '' '') ''9007199254740993'' [] (CHR '' '') ''9007199254740993'' []
       (CHR '' '') [] \<and>
   mathInt ''9007199254740993'' = 9007199254740993 \<and>
   oldLine (state_before ''@@ -9007199254740993 +9007199254740993 @@'' 1) = 9007199254740992 \<and>
   oldLine (state_before ''@@ -9007199254740993 +9007199254740993 @@'' 1) \<noteq>
     enat (mathInt ''9007199254740993'')"
  by (simp add: eval_defs wellFormed_def isCount_def hunkHeader_def toNumber_def rnd_def
      expo_large expo_small Let_def)

text \<open>
  Claim C5, amended. A line that is a well-formed hunk header sets the old and the new
  counter to the numbers that \<^verbatim>\<open>parseInt\<close> yields for the start values it declares,
  which are the declared values themselves whenever these are at most \<open>2 ^ 53\<close>, and
  changes nothing else but to push the line as a header row; a content line right after
  it is numbered from these numbers (the header \<^verbatim>\<open>@@ -10,5 +20,5 @@\<close> before a context
  line gives that row old 10 and new 20). A line that is not a header never resets a
  counter: it leaves it, or applies \<^verbatim>\<open>+= 1\<close> to it, which never lowers it.
\<close>

theorem hunk_header_sets_counters:
  assumes "wellFormed w1 d1 c1 w2 d2 c2 w3"
    and "k < length (split_nl patch)"
    and "split_nl patch ! k = hunkHeader w1 d1 c1 w2 d2 c2 w3 rest"
  shows "(\<forall>i st. body i (split_nl patch ! k) st =
            \<lparr>oldLine = parseInt d1, newLine = parseInt d2,
             rendered = rendered st @ [HeaderRow i (split_nl patch ! k)]\<rparr>) \<and>
         (mathInt d1 \<le> 2 ^ 53 \<longrightarrow> parseInt d1 = enat (mathInt d1)) \<and>
         (mathInt d2 \<le> 2 ^ 53 \<longrightarrow> parseInt d2 = enat (mathInt d2)) \<and>
         DiffViewer patch ! k = HeaderRow k (split_nl patch ! k) \<and>
         oldLine (state_before patch (Suc k)) = parseInt d1 \<and>
         newLine (state_before patch (Suc k)) = parseInt d2 \<and>
         (Suc k < length (split_nl patch) \<longrightarrow> \<not> startsWith (split_nl patch ! Suc k) ''@@'' \<longrightarrow>
            numbered_from (DiffViewer patch ! Suc k) (parseInt d1) (parseInt d2)) \<and>
         (\<forall>m<length (split_nl patch). \<not> startsWith (split_nl patch ! m) ''@@'' \<longrightarrow>
            (oldLine (state_before patch (Suc m)) = oldLine (state_before patch m) \<or>
             oldLine (state_before patch (Suc m)) = plus1 (oldLine (state_before patch m))) \<and>
            oldLine (state_before patch m) \<le> oldLine (state_before patch (Suc m)) \<and>
            (newLine (state_before patch (Suc m)) = newLine (state_before patch m) \<or>
             newLine (state_before patch (Suc m)) = plus1 (newLine (state_before patch m))) \<and>
            newLine (state_before patch m) \<le> newLine (state_before patch (Suc m)))"
proof -
  let ?raw = "split_nl patch ! k"
  have bd: "\<forall>i st. body i ?raw st =
            \<lparr>oldLine = parseInt d1, newLine = parseInt d2,
             rendered = rendered st @ [HeaderRow i ?raw]\<rparr>"
    using body_hunkHeader [OF assms(1)] by (simp add: assms(3))
  have ex: "(mathInt d1 \<le> 2 ^ 53 \<longrightarrow> parseInt d1 = enat (mathInt d1)) \<and>
            (mathInt d2 \<le> 2 ^ 53 \<longrightarrow> parseInt d2 = enat (mathInt d2))"
    by (simp add: parseInt_def toNumber_exact)
  have row: "DiffViewer patch ! k = HeaderRow k ?raw"
    using assms(2,3) by (simp add: DiffViewer_nth emitted_header startsWith_hunkHeader)
  have cnt: "oldLine (state_before patch (Suc k)) = parseInt d1 \<and>
             newLine (state_before patch (Suc k)) = parseInt d2"
    using assms(2) bd by (simp add: state_before_Suc)
  have nxt: "Suc k < length (split_nl patch) \<longrightarrow> \<not> startsWith (split_nl patch ! Suc k) ''@@'' \<longrightarrow>
            numbered_from (DiffViewer patch ! Suc k) (parseInt d1) (parseInt d2)"
    using numbered_from_nth [of "Suc k" patch] cnt by auto
  have only: "\<forall>m<length (split_nl patch). \<not> startsWith (split_nl patch ! m) ''@@'' \<longrightarrow>
            (oldLine (state_before patch (Suc m)) = oldLine (state_before patch m) \<or>
             oldLine (state_before patch (Suc m)) = plus1 (oldLine (state_before patch m))) \<and>
            oldLine (state_before patch m) \<le> oldLine (state_before patch (Suc m)) \<and>
            (newLine (state_before patch (Suc m)) = newLine (state_before patch m) \<or>
             newLine (state_before patch (Suc m)) = plus1 (newLine (state_before patch m))) \<and>
            newLine (state_before patch m) \<le> newLine (state_before patch (Suc m))"
    using content_line_step [of _ patch] by blast
  from bd ex row cnt nxt only show ?thesis by blast
qed

theorem hunk_header_sets_counters_witness:
  "wellFormed (CHR '' '') ''10'' '',5'' (CHR '' '') ''20'' '',5'' (CHR '' '') \<and>
   split_nl ''@@ -10,5 +20,5 @@\<newline> first'' ! 0 =
     hunkHeader (CHR '' '') ''10'' '',5'' (CHR '' '') ''20'' '',5'' (CHR '' '') [] \<and>
   mathInt ''10'' = 10 \<and> mathInt ''20'' = 20 \<and>
   parseInt ''10'' = 10 \<and> parseInt ''20'' = 20 \<and>
   DiffViewer ''@@ -10,5 +20,5 @@\<newline> first'' ! 0 = HeaderRow 0 ''@@ -10,5 +20,5 @@'' \<and>
   DiffViewer ''@@ -10,5 +20,5 @@\<newline> first'' ! 1 =
     LineRow 1 Ctx (Some 10) (Some 20) '' '' '' first''"
proof -
  let ?p = "''@@ -10,5 +20,5 @@\<newline> first''"
  have h1: "wellFormed (CHR '' '') ''10'' '',5'' (CHR '' '') ''20'' '',5'' (CHR '' '')"
    by (simp add: wellFormed_def isCount_def isSpace_def isDigit_def)
  have h2: "0 < length (split_nl ?p)" by simp
  have h3: "split_nl ?p ! 0 =
     hunkHeader (CHR '' '') ''10'' '',5'' (CHR '' '') ''20'' '',5'' (CHR '' '') []"
    by (simp add: hunkHeader_def)
  show ?thesis
    using h1 h3 hunk_header_sets_counters [OF h1 h2 h3]
    by (simp add: eval_defs)
qed

subsection \<open>The end-to-end scenario\<close>

text \<open>
  The rows of the scenario are not the rows the specification lists: the viewer keeps
  the leading space in the text of a context row, and it numbers the deletion old 2 and
  the last context row old 3, since the context row before them has advanced the old
  counter.
\<close>

theorem six_line_patch_counterexample:
  "map shown (DiffViewer six_line_patch) \<noteq> expected_rows_spec \<and>
   row_text (DiffViewer six_line_patch ! 1) \<noteq> ''line one'' \<and>
   old_number (DiffViewer six_line_patch ! 2) \<noteq> Some 1 \<and>
   old_number (DiffViewer six_line_patch ! 5) \<noteq> Some 2 \<and>
   row_text (DiffViewer six_line_patch ! 5) \<noteq> ''line four''"
  by (simp add: six_line_patch_def shown_def expected_rows_spec_def eval_defs)

text \<open>
  Claim C2, amended. The six lines of the scenario give, in order: a header row, after
  which the counters are old 1 and new 1; a context row with old 1, new 1 and the text
  \<open>'' line one''\<close>; a deletion with old 2 and the text \<open>''line two''\<close>; an addition with
  new 2 and the text \<open>''line two modified''\<close>; an addition with new 3 and the text
  \<open>''line three new''\<close>; a context row with old 3, new 4 and the text \<open>'' line four''\<close>.
  A click on the addition that shows new 2 picks line 2.
\<close>

theorem six_line_patch_rows:
  "DiffViewer six_line_patch =
     [HeaderRow 0 ''@@ -1,3 +1,4 @@'',
      LineRow 1 Ctx (Some 1) (Some 1) '' '' '' line one'',
      LineRow 2 Del (Some 2) None ''-'' ''line two'',
      LineRow 3 Add None (Some 2) ''+'' ''line two modified'',
      LineRow 4 Add None (Some 3) ''+'' ''line three new'',
      LineRow 5 Ctx (Some 3) (Some 4) '' '' '' line four''] \<and>
   oldLine (state_before six_line_patch 1) = 1 \<and>
   newLine (state_before six_line_patch 1) = 1 \<and>
   new_number (DiffViewer six_line_patch ! 3) = Some 2 \<and>
   onClick (DiffViewer six_line_patch ! 3) = Some 2"
  by (simp add: six_line_patch_def eval_defs click_ln_def)

theorem six_line_patch_rows_witness:
  "length (DiffViewer six_line_patch) = 6 \<and>
   row_text (DiffViewer six_line_patch ! 2) = ''line two''"
  using six_line_patch_rows by simp

subsection \<open>The text of a row\<close>

text \<open>
  The text of a context row is not the line without its first character: the viewer
  strips the first character of additions and deletions only.
\<close>

theorem context_text_counterexample:
  "\<not> startsWith (split_nl '' line one'' ! 0) ''@@'' \<and>
   row_text (DiffViewer '' line one'' ! 0) \<noteq> display_text_spec (split_nl '' line one'' ! 0) \<and>
   row_text (DiffViewer '' line one'' ! 0) = '' line one''"
  by (simp add: display_text_spec_def eval_defs)

lemma row_text_emitted:
  "\<not> startsWith raw ''@@'' \<Longrightarrow>
   row_text (emitted i raw st) =
     (if startsWith raw ''+'' \<or> startsWith raw ''-'' then drop 1 raw else raw)"
  by (simp add: emitted_def body_def Let_def)

text \<open>
  Claim C8, amended. For every content line: the text of an addition or a deletion is
  the raw line without its leading \<^verbatim>\<open>+\<close> or \<^verbatim>\<open>-\<close>; the text of a context row is the
  whole raw line, its first character included.
\<close>

theorem display_text_by_kind:
  assumes "k < length (split_nl patch)" and "\<not> startsWith (split_nl patch ! k) ''@@''"
  shows "(row_type (DiffViewer patch ! k) = Some Add \<longrightarrow>
            startsWith (split_nl patch ! k) ''+'' \<and>
            row_text (DiffViewer patch ! k) = display_text_spec (split_nl patch ! k)) \<and>
         (row_type (DiffViewer patch ! k) = Some Del \<longrightarrow>
            startsWith (split_nl patch ! k) ''-'' \<and>
            row_text (DiffViewer patch ! k) = display_text_spec (split_nl patch ! k)) \<and>
         (row_type (DiffViewer patch ! k) = Some Ctx \<longrightarrow>
            row_text (DiffViewer patch ! k) = split_nl patch ! k) \<and>
         row_type (DiffViewer patch ! k) \<noteq> None"
  using assms
  by (simp add: DiffViewer_nth row_type_emitted row_text_emitted display_text_spec_def)

theorem display_text_by_kind_witness:
  "\<not> startsWith (split_nl ''+a b\<newline> c d'' ! 1) ''@@'' \<and>
   row_type (DiffViewer ''+a b\<newline> c d'' ! 1) = Some Ctx \<and>
   row_text (DiffViewer ''+a b\<newline> c d'' ! 1) = '' c d'' \<and>
   row_type (DiffViewer ''+a b\<newline> c d'' ! 0) = Some Add \<and>
   row_text (DiffViewer ''+a b\<newline> c d'' ! 0) = ''a b''"
proof -
  let ?p = "''+a b\<newline> c d''"
  have h0: "0 < length (split_nl ?p)" and h1: "1 < length (split_nl ?p)" by simp_all
  have n0: "\<not> startsWith (split_nl ?p ! 0) ''@@''" and n1: "\<not> startsWith (split_nl ?p ! 1) ''@@''"
    by (simp_all add: startsWith_def)
  show ?thesis
    using n1 display_text_by_kind [OF h0 n0] display_text_by_kind [OF h1 n1]
    by (simp add: eval_defs display_text_spec_def)
qed

subsection \<open>The click on a row\<close>

text \<open>
  An addition before any hunk header shows the new-file number 0; it is not a header
  row, its new-file number is present, and yet a click on it picks nothing.
\<close>

theorem resolve_counterexample:
  "\<not> is_header (DiffViewer ''+x'' ! 0) \<and>
   new_number (DiffViewer ''+x'' ! 0) = Some 0 \<and>
   onClick (DiffViewer ''+x'' ! 0) = None \<and>
   onClick (DiffViewer ''+x'' ! 0) \<noteq> resolveCommentTarget_spec (DiffViewer ''+x'' ! 0)"
  by (simp add: eval_defs click_ln_def resolveCommentTarget_spec_def)

lemma onClick_new: "new_number r = Some n \<Longrightarrow> onClick r = (if n = 0 then None else Some n)"
  by (cases r) (simp_all add: click_ln_def)

lemma onClick_old:
  "new_number r = None \<Longrightarrow> old_number r = Some n \<Longrightarrow>
   onClick r = (if n = 0 then None else Some n)"
  by (cases r) (simp_all add: click_ln_def)

lemma onClick_none: "new_number r = None \<Longrightarrow> old_number r = None \<Longrightarrow> onClick r = None"
  by (cases r) (simp_all add: click_ln_def)

lemma onClick_None_iff:
  "\<not> is_header r \<longrightarrow> old_number r \<noteq> None \<or> new_number r \<noteq> None \<Longrightarrow>
   onClick r = None \<longleftrightarrow> is_header r \<or> resolveCommentTarget_spec r = Some 0"
  by (cases r) (auto simp: click_ln_def resolveCommentTarget_spec_def split: option.splits)

text \<open>
  Claim C7, amended. A click resolves a row to its new-file number when that is present,
  else to its old-file number when that is present, and picks the resolved number
  unless it is 0; with neither number it picks nothing. On the rows of a patch, a
  click picks nothing exactly on the header rows and on the content rows the
  specification's resolution maps to 0. Nothing raises.
\<close>

theorem click_resolution:
  "(\<forall>r n. new_number r = Some n \<longrightarrow> onClick r = (if n = 0 then None else Some n)) \<and>
   (\<forall>r n. new_number r = None \<longrightarrow> old_number r = Some n \<longrightarrow>
      onClick r = (if n = 0 then None else Some n)) \<and>
   (\<forall>r. new_number r = None \<longrightarrow> old_number r = None \<longrightarrow> onClick r = None) \<and>
   (\<forall>r \<in> set (DiffViewer patch).
      onClick r = None \<longleftrightarrow> is_header r \<or> resolveCommentTarget_spec r = Some 0)"
proof -
  have "\<forall>r \<in> set (DiffViewer patch).
      onClick r = None \<longleftrightarrow> is_header r \<or> resolveCommentTarget_spec r = Some 0"
  proof
    fix r
    assume "r \<in> set (DiffViewer patch)"
    then obtain k where k: "k < length (split_nl patch)" and r: "r = DiffViewer patch ! k"
      by (auto simp: in_set_conv_nth length_DiffViewer)
    from k r have "r = emitted k (split_nl patch ! k) (state_before patch k)"
      by (simp add: DiffViewer_nth)
    with row_presence [of k "split_nl patch ! k" "state_before patch k"]
    have "\<not> is_header r \<longrightarrow> old_number r \<noteq> None \<or> new_number r \<noteq> None"
      by (simp add: Let_def)
    then show "onClick r = None \<longleftrightarrow> is_header r \<or> resolveCommentTarget_spec r = Some 0"
      by (rule onClick_None_iff)
  qed
  then show ?thesis
    using onClick_new onClick_old onClick_none by blast
qed

theorem click_resolution_witness:
  "LineRow 1 Ctx (Some 5) (Some 7) '' '' '' z'' \<in> set (DiffViewer ''@@ -5 +7 @@\<newline> z'') \<and>
   onClick (LineRow 1 Ctx (Some 5) (Some 7) '' '' '' z'') = Some 7 \<and>
   onClick (LineRow 1 Del (Some 5) None ''-'' ''z'') = Some 5 \<and>
   HeaderRow 0 ''@@ -5 +7 @@'' \<in> set (DiffViewer ''@@ -5 +7 @@\<newline> z'') \<and>
   onClick (HeaderRow 0 ''@@ -5 +7 @@'') = None"
proof -
  let ?p = "''@@ -5 +7 @@\<newline> z''"
  have h1: "LineRow 1 Ctx (Some 5) (Some 7) '' '' '' z'' \<in> set (DiffViewer ?p)"
    and h2: "HeaderRow 0 ''@@ -5 +7 @@'' \<in> set (DiffViewer ?p)"
    by (simp_all add: eval_defs)
  have n1: "new_number (LineRow 1 Ctx (Some 5) (Some 7) '' '' '' z'') = Some 7" by simp
  have n2: "new_number (LineRow 1 Del (Some 5) None ''-'' ''z'') = None"
    and o2: "old_number (LineRow 1 Del (Some 5) None ''-'' ''z'') = Some 5" by simp_all
  have c: "onClick (LineRow 1 Ctx (Some 5) (Some 7) '' '' '' z'') = Some 7"
    using click_resolution [of ?p] n1 by (simp add: click_ln_def)
  have d: "onClick (LineRow 1 Del (Some 5) None ''-'' ''z'') = Some 5"
    using click_resolution [of ?p] n2 o2 by (simp add: click_ln_def)
  have e: "onClick (HeaderRow 0 ''@@ -5 +7 @@'') = None"
    using click_resolution [of ?p] h2 by simp
  from h1 h2 c d e show ?thesis by blast
qed

subsection \<open>Determinism\<close>

lemma entry_state: "(s::state)\<lparr>oldLine := 0, newLine := 0, rendered := []\<rparr> = init"
  by (cases s) (simp add: init_def)

text \<open>
  Claim C9. The rows of a call depend on the patch only: whatever values an earlier call
  left in the variables, a call returns the rows of \<open>DiffViewer patch\<close>; so two calls in
  sequence on the same patch return the same rows, also with a call on another patch
  before them.
\<close>

theorem no_state_between_calls:
  "fst (DiffViewer_call patch s) = DiffViewer patch \<and>
   fst (DiffViewer_call patch (snd (DiffViewer_call patch s))) = fst (DiffViewer_call patch s) \<and>
   fst (DiffViewer_call patch (snd (DiffViewer_call other s))) = fst (DiffViewer_call patch s)"
  by (simp add: DiffViewer_call_def DiffViewer_def entry_state Let_def)

theorem no_state_between_calls_witness:
  "fst (DiffViewer_call ''+a'' \<lparr>oldLine = 3, newLine = 4, rendered = [HeaderRow 0 ''@@'']\<rparr>) =
     [LineRow 0 Add None (Some 0) ''+'' ''a'']"
  using no_state_between_calls
    [of "''+a''" "\<lparr>oldLine = 3, newLine = 4, rendered = [HeaderRow 0 ''@@'']\<rparr>" "[]"]
  by (simp add: eval_defs)

subsection \<open>Lines before the first well-formed hunk header\<close>

lemma pre_header_zero:
  assumes "k \<le> length (split_nl patch)"
    and "\<forall>m<k. startsWith (split_nl patch ! m) ''@@'' \<longrightarrow> match (split_nl patch ! m) = None"
  shows "(oldLine (state_before patch k) = 0 \<longleftrightarrow> (\<forall>m<k. \<not> old_advancing (split_nl patch ! m))) \<and>
         (newLine (state_before patch k) = 0 \<longleftrightarrow> (\<forall>m<k. \<not> new_advancing (split_nl patch ! m)))"
  using assms
proof (induction k)
  case 0
  show ?case by (simp add: state_before_0 init_def)
next
  case (Suc k)
  let ?raw = "split_nl patch ! k"
  from Suc have kl: "k < length (split_nl patch)"
    and IH: "(oldLine (state_before patch k) = 0 \<longleftrightarrow> (\<forall>m<k. \<not> old_advancing (split_nl patch ! m))) \<and>
         (newLine (state_before patch k) = 0 \<longleftrightarrow> (\<forall>m<k. \<not> new_advancing (split_nl patch ! m)))"
    and hd: "startsWith ?raw ''@@'' \<longrightarrow> match ?raw = None"
    by simp_all
  note num = isNumber_state_before [of patch k]
  show ?case
  proof (cases "startsWith ?raw ''@@''")
    case True
    with hd have "match ?raw = None" by simp
    moreover from True have "\<not> old_advancing ?raw" and "\<not> new_advancing ?raw"
      by (simp_all add: old_advancing_def new_advancing_def)
    ultimately show ?thesis
      using True kl IH
      by (simp add: state_before_Suc counters_body_header_nomatch less_Suc_eq all_conj_distrib)
  next
    case False
    then have adv: "old_advancing ?raw = (\<not> startsWith ?raw ''+'')"
      "new_advancing ?raw = (startsWith ?raw ''+'' \<or> \<not> startsWith ?raw ''-'')"
      by (simp_all add: old_advancing_def new_advancing_def)
    have old: "oldLine (state_before patch (Suc k)) =
        (if old_advancing ?raw then plus1 (oldLine (state_before patch k))
         else oldLine (state_before patch k))"
      and new: "newLine (state_before patch (Suc k)) =
        (if new_advancing ?raw then plus1 (newLine (state_before patch k))
         else newLine (state_before patch k))"
      using False kl adv by (simp_all add: state_before_Suc counters_body_line)
    have a: "(\<forall>m<Suc k. \<not> old_advancing (split_nl patch ! m)) \<longleftrightarrow>
             (\<forall>m<k. \<not> old_advancing (split_nl patch ! m)) \<and> \<not> old_advancing ?raw"
      and b: "(\<forall>m<Suc k. \<not> new_advancing (split_nl patch ! m)) \<longleftrightarrow>
             (\<forall>m<k. \<not> new_advancing (split_nl patch ! m)) \<and> \<not> new_advancing ?raw"
      by (auto simp: less_Suc_eq)
    show ?thesis
      unfolding a b old new using IH num by (simp add: plus1_not_0)
  qed
qed

lemma onClick_zero:
  "row_type r = Some Add \<and> new_number r = Some 0 \<or>
   row_type r = Some Del \<and> old_number r = Some 0 \<or>
   row_type r = Some Ctx \<and> old_number r = Some 0 \<and> new_number r = Some 0 \<Longrightarrow>
   numbered_from r old new \<Longrightarrow> onClick r = None"
  by (cases r) (auto simp: click_ln_def numbered_from_def split: line_type.splits)

lemma numbered_from_zero: "numbered_from r 0 0 \<Longrightarrow> onClick r = None"
  by (cases r) (auto simp: click_ln_def numbered_from_def split: line_type.splits)

lemma numbered_from_presence:
  "numbered_from r old new \<Longrightarrow>
   \<not> is_header r \<and> (old_number r \<noteq> None \<or> new_number r \<noteq> None)"
  by (cases r) (auto simp: numbered_from_def split: line_type.splits)

text \<open>
  Not every content line before the first well-formed header is dead: in the patch of
  the two additions \<^verbatim>\<open>+a\<close> and \<^verbatim>\<open>+b\<close> no line is a header, the second row shows the
  new-file number 1, and a click on it picks line 1.
\<close>

theorem pre_header_line_counterexample:
  "\<not> startsWith (split_nl ''+a\<newline>+b'' ! 0) ''@@'' \<and>
   \<not> startsWith (split_nl ''+a\<newline>+b'' ! 1) ''@@'' \<and>
   DiffViewer ''+a\<newline>+b'' ! 1 = LineRow 1 Add None (Some 1) ''+'' ''b'' \<and>
   onClick (DiffViewer ''+a\<newline>+b'' ! 1) = Some 1"
  by (simp add: eval_defs click_ln_def)

text \<open>
  Claim C10, amended. Take a content line \<open>k\<close> with no well-formed hunk header before it.
  The counters start at 0 and nothing has set them, so the row shows in the cells of its
  type the counters as the lines before it have advanced them: it carries a line number,
  and a counter is still 0 exactly when no line before has advanced it. A click on the
  row picks nothing exactly when the number the row resolves to is 0; this is so for an
  addition numbered new 0, a deletion numbered old 0 and a context row numbered old 0 and
  new 0, and in particular for the first content line. A row that resolves to another
  number is picked.
\<close>

theorem lines_numbered_zero_not_pickable:
  assumes "k < length (split_nl patch)"
    and "\<forall>m<k. startsWith (split_nl patch ! m) ''@@'' \<longrightarrow> match (split_nl patch ! m) = None"
    and "\<not> startsWith (split_nl patch ! k) ''@@''"
  shows "numbered_from (DiffViewer patch ! k)
           (oldLine (state_before patch k)) (newLine (state_before patch k)) \<and>
         (old_number (DiffViewer patch ! k) \<noteq> None \<or> new_number (DiffViewer patch ! k) \<noteq> None) \<and>
         (oldLine (state_before patch k) = 0 \<longleftrightarrow>
            (\<forall>m<k. \<not> old_advancing (split_nl patch ! m))) \<and>
         (newLine (state_before patch k) = 0 \<longleftrightarrow>
            (\<forall>m<k. \<not> new_advancing (split_nl patch ! m))) \<and>
         (onClick (DiffViewer patch ! k) = None \<longleftrightarrow>
            resolveCommentTarget_spec (DiffViewer patch ! k) = Some 0) \<and>
         (row_type (DiffViewer patch ! k) = Some Add \<and> new_number (DiffViewer patch ! k) = Some 0 \<or>
          row_type (DiffViewer patch ! k) = Some Del \<and> old_number (DiffViewer patch ! k) = Some 0 \<or>
          row_type (DiffViewer patch ! k) = Some Ctx \<and> old_number (DiffViewer patch ! k) = Some 0 \<and>
            new_number (DiffViewer patch ! k) = Some 0 \<longrightarrow>
          onClick (DiffViewer patch ! k) = None) \<and>
         ((\<forall>m<k. startsWith (split_nl patch ! m) ''@@'') \<longrightarrow>
            numbered_from (DiffViewer patch ! k) 0 0 \<and> onClick (DiffViewer patch ! k) = None)"
proof -
  let ?r = "DiffViewer patch ! k"
  let ?old = "oldLine (state_before patch k)"
  let ?new = "newLine (state_before patch k)"
  have nf: "numbered_from ?r ?old ?new"
    using assms(1,3) by (rule numbered_from_nth)
  have pres: "\<not> is_header ?r \<and> (old_number ?r \<noteq> None \<or> new_number ?r \<noteq> None)"
    using nf by (rule numbered_from_presence)
  have cnt: "(?old = 0 \<longleftrightarrow> (\<forall>m<k. \<not> old_advancing (split_nl patch ! m))) \<and>
             (?new = 0 \<longleftrightarrow> (\<forall>m<k. \<not> new_advancing (split_nl patch ! m)))"
    using pre_header_zero [of k patch] assms(1,2) by simp
  have pick: "onClick ?r = None \<longleftrightarrow> resolveCommentTarget_spec ?r = Some 0"
    using onClick_None_iff [of ?r] pres by simp
  have zero: "row_type ?r = Some Add \<and> new_number ?r = Some 0 \<or>
          row_type ?r = Some Del \<and> old_number ?r = Some 0 \<or>
          row_type ?r = Some Ctx \<and> old_number ?r = Some 0 \<and> new_number ?r = Some 0 \<longrightarrow>
          onClick ?r = None"
    using onClick_zero [OF _ nf] by blast
  have first: "(\<forall>m<k. startsWith (split_nl patch ! m) ''@@'') \<longrightarrow>
            numbered_from ?r 0 0 \<and> onClick ?r = None"
  proof
    assume all: "\<forall>m<k. startsWith (split_nl patch ! m) ''@@''"
    then have "(\<forall>m<k. \<not> old_advancing (split_nl patch ! m)) \<and>
               (\<forall>m<k. \<not> new_advancing (split_nl patch ! m))"
      by (simp add: old_advancing_def new_advancing_def)
    with cnt have "?old = 0 \<and> ?new = 0" by simp
    with nf have "numbered_from ?r 0 0" by simp
    then show "numbered_from ?r 0 0 \<and> onClick ?r = None"
      by (simp add: numbered_from_zero)
  qed
  from nf pres cnt pick zero first show ?thesis by blast
qed

theorem lines_numbered_zero_not_pickable_witness:
  "\<not> startsWith (split_nl ''@@ here\<newline>+a\<newline>+b'' ! 1) ''@@'' \<and>
   DiffViewer ''@@ here\<newline>+a\<newline>+b'' ! 1 = LineRow 1 Add None (Some 0) ''+'' ''a'' \<and>
   onClick (DiffViewer ''@@ here\<newline>+a\<newline>+b'' ! 1) = None \<and>
   \<not> startsWith (split_nl ''@@ here\<newline>+a\<newline>+b'' ! 2) ''@@'' \<and>
   new_advancing (split_nl ''@@ here\<newline>+a\<newline>+b'' ! 1) \<and>
   newLine (state_before ''@@ here\<newline>+a\<newline>+b'' 2) \<noteq> 0"
proof -
  let ?p = "''@@ here\<newline>+a\<newline>+b''"
  have h1: "1 < length (split_nl ?p)" and k1: "2 < length (split_nl ?p)" by simp_all
  have h2: "\<forall>m<1. startsWith (split_nl ?p ! m) ''@@'' \<longrightarrow> match (split_nl ?p ! m) = None"
    by (simp add: eval_defs)
  have k2: "\<forall>m<2. startsWith (split_nl ?p ! m) ''@@'' \<longrightarrow> match (split_nl ?p ! m) = None"
    by (simp add: eval_defs less_Suc_eq numeral_2_eq_2)
  have h3: "\<not> startsWith (split_nl ?p ! 1) ''@@''"
    and k3: "\<not> startsWith (split_nl ?p ! 2) ''@@''" by (simp_all add: startsWith_def)
  have h4: "\<forall>m<1. startsWith (split_nl ?p ! m) ''@@''" by (simp add: startsWith_def)
  have adv: "new_advancing (split_nl ?p ! 1)" by (simp add: new_advancing_def startsWith_def)
  have "onClick (DiffViewer ?p ! 1) = None"
    using lines_numbered_zero_not_pickable [OF h1 h2 h3] h4 by blast
  moreover have "DiffViewer ?p ! 1 = LineRow 1 Add None (Some 0) ''+'' ''a''"
    by (simp add: eval_defs)
  moreover have "newLine (state_before ?p 2) \<noteq> 0"
    using lines_numbered_zero_not_pickable [OF k1 k2 k3] adv by (metis one_less_numeral_iff semiring_norm(76))
  ultimately show ?thesis using h3 k3 adv by simp
qed

end
